theory Spec2Isabelle
  imports Main "HOL-Library.Sublist"
begin

section \<open>Registry resource discovery in the H-R diagram notebook\<close>

text \<open>
  The notebook \<^verbatim>\<open>UseCase_III.ipynb\<close> narrows a registry search result by keyword
  (\<^verbatim>\<open>getrow\<close>), removes repeated short names (\<^verbatim>\<open>getunique\<close>), looks a paper up
  by bibcode and picks a table name by its short-name prefix. The embedding below
  follows the cells of the notebook. Python strings are \<^typ>\<open>string\<close>, read as
  sequences of code points below 256; Python integers are \<^typ>\<open>int\<close>; a raised
  exception is the left summand of a sum type.
\<close>

subsection \<open>Data\<close>

text \<open>
  One row of a registry search result. The notebook reads the attributes
  \<^verbatim>\<open>short_name\<close>, \<^verbatim>\<open>ivoid\<close>, \<^verbatim>\<open>res_description\<close>, \<^verbatim>\<open>creators\<close> and \<^verbatim>\<open>access_url\<close>
  and the column \<^verbatim>\<open>source_value\<close>; all of them hold text.
\<close>

record resource =
  short_name :: string
  ivoid :: string
  res_description :: string
  creators :: "string list"
  source_value :: string
  access_url :: string

datatype error = IndexError | AttributeError | NameError

subsection \<open>Python built-ins used by the cells\<close>

text \<open>\<^verbatim>\<open>s.startswith(p)\<close>: the characters of \<open>p\<close> are the first characters of \<open>s\<close>.\<close>

fun startswith :: "string \<Rightarrow> string \<Rightarrow> bool" where
  "startswith s [] = True"
| "startswith [] (p # ps) = False"
| "startswith (c # cs) (p # ps) = (c = p \<and> startswith cs ps)"

text \<open>\<^verbatim>\<open>sub in s\<close> on strings: \<open>sub\<close> starts at some position of \<open>s\<close>.\<close>

fun str_contains :: "string \<Rightarrow> string \<Rightarrow> bool" where
  "str_contains [] sub = (sub = [])"
| "str_contains (c # cs) sub = (startswith (c # cs) sub \<or> str_contains cs sub)"

text \<open>
  \<^verbatim>\<open>str.isspace\<close> on one character, for code points below 256: tab to carriage
  return, the four separators 28 to 31, space, NEL (133) and no-break space (160).
\<close>

definition isspace :: "char \<Rightarrow> bool" where
  "isspace c = ((of_char c :: nat) \<in> {9, 10, 11, 12, 13, 28, 29, 30, 31, 32, 133, 160})"

text \<open>
  \<^verbatim>\<open>s.split()\<close> with no separator: runs of whitespace separate the words and no
  empty word is produced. \<open>split_from w cs\<close> has read the word \<open>w\<close> so far and
  goes on with the characters \<open>cs\<close>.
\<close>

fun split_from :: "string \<Rightarrow> string \<Rightarrow> string list" where
  "split_from w [] = (if w = [] then [] else [w])"
| "split_from w (c # cs) =
     (if isspace c then (if w = [] then split_from [] cs else w # split_from [] cs)
      else split_from (w @ [c]) cs)"

definition split :: "string \<Rightarrow> string list" where
  "split s = split_from [] s"

text \<open>
  \<^verbatim>\<open>xs[i]\<close> on a sequence of length \<open>n\<close>: the indices \<open>0 .. n - 1\<close> count from the
  front, \<open>-n .. -1\<close> from the back, and every other index raises \<^verbatim>\<open>IndexError\<close>.
\<close>

definition valid_index :: "'a list \<Rightarrow> int \<Rightarrow> bool" where
  "valid_index xs i = (- int (length xs) \<le> i \<and> i < int (length xs))"

definition item :: "'a list \<Rightarrow> int \<Rightarrow> 'a" where
  "item xs i = xs ! nat (if i < 0 then int (length xs) + i else i)"

definition getitem :: "'a list \<Rightarrow> int \<Rightarrow> error + 'a" where
  "getitem xs i = (if valid_index xs i then Inr (item xs i) else Inl IndexError)"

subsection \<open>Keyword filter: \<^verbatim>\<open>getrow\<close>\<close>

text \<open>
  \<^verbatim>\<open>
  def getrow( result, keywords=None ):
      ind = []
      keys = keywords.split()
      n_keys = len(keys)
      n_match = 0
      for i in range(len(result.to_table())):
          for each in keys:
              if each in result[i].res_description:
                  n_match = n_match + 1
          if n_match == n_keys:
              ind.append(i)
          n_match = 0
      return(ind)
  \<close>
  The inner loop counts the keys found in one description, starting from the
  current \<open>n_match\<close> (which is 0 at the start of every round of the outer loop).
  The outer loop visits the positions \<open>0 .. len - 1\<close>, so \<open>result[i]\<close> is always in
  range. With the default \<open>keywords=None\<close> the call of \<^verbatim>\<open>split\<close> raises
  \<^verbatim>\<open>AttributeError\<close>.
\<close>

fun n_match_loop :: "string list \<Rightarrow> string \<Rightarrow> nat \<Rightarrow> nat" where
  "n_match_loop [] description n_match = n_match"
| "n_match_loop (each # keys) description n_match =
     n_match_loop keys description
       (if str_contains description each then n_match + 1 else n_match)"

fun getrow_loop :: "resource list \<Rightarrow> string list \<Rightarrow> nat list \<Rightarrow> int list \<Rightarrow> int list" where
  "getrow_loop result keys [] ind = ind"
| "getrow_loop result keys (i # rest) ind =
     (let n_match = n_match_loop keys (res_description (result ! i)) 0
      in getrow_loop result keys rest
           (if n_match = length keys then ind @ [int i] else ind))"

definition getrow :: "resource list \<Rightarrow> string option \<Rightarrow> error + int list" where
  "getrow result keywords =
     (case keywords of
        None \<Rightarrow> Inl AttributeError
      | Some kw \<Rightarrow>
          (let keys = split kw
           in Inr (getrow_loop result keys [0 ..< length result] [])))"

subsection \<open>Short-name deduplication: \<^verbatim>\<open>getunique\<close>\<close>

text \<open>
  \<^verbatim>\<open>
  def getunique( result, ind ):
      short_name = []
      unique_ind = []
      for i in range(len(ind)):
          short = result[ind[i]].short_name
          if short not in short_name:
              short_name.append(short)
              unique_ind.append(ind[i])
      return(unique_ind)
  \<close>
  The loop visits the elements of \<open>ind\<close> in order; \<open>result[ind[i]]\<close> raises
  \<^verbatim>\<open>IndexError\<close> when the index is outside the result, which ends the call.
\<close>

fun getunique_loop ::
  "resource list \<Rightarrow> int list \<Rightarrow> string list \<Rightarrow> int list \<Rightarrow> error + int list" where
  "getunique_loop result [] short_names unique_ind = Inr unique_ind"
| "getunique_loop result (i # rest) short_names unique_ind =
     (case getitem result i of
        Inl e \<Rightarrow> Inl e
      | Inr r \<Rightarrow>
          (let short = short_name r
           in if short \<notin> set short_names
              then getunique_loop result rest (short_names @ [short]) (unique_ind @ [i])
              else getunique_loop result rest short_names unique_ind))"

definition getunique :: "resource list \<Rightarrow> int list \<Rightarrow> error + int list" where
  "getunique result ind = getunique_loop result ind [] []"

subsection \<open>Bibcode lookup\<close>

text \<open>
  The first variant compares the whole column with \<^verbatim>\<open>==\<close>:
  \<^verbatim>\<open>
  all_bibcodes = tap_services.getcolumn('source_value')
  match = np.where(all_bibcodes == bibcode)
  \<close>
  \<open>match\<close> holds every position whose entry equals the bibcode, in increasing
  order, and is empty when there is none.
\<close>

definition np_where_bibcode :: "resource list \<Rightarrow> string \<Rightarrow> int list" where
  "np_where_bibcode tap_services bibcode =
     map int (filter (\<lambda>i. source_value (tap_services ! i) = bibcode)
                [0 ..< length tap_services])"

text \<open>
  The second variant is a loop that stops at the first hit:
  \<^verbatim>\<open>
  idx=-1
  for s in tap_services.to_table():
      idx+=1
      if bibcode in s['source_value']:
          myidx=idx
          print(...)
          break
  myTAP=tap_services[myidx]
  \<close>
  The test is \<^verbatim>\<open>in\<close>, substring containment. The loop assigns \<open>myidx\<close> only at a
  hit; \<open>bibcode_match_loop\<close> returns \<open>None\<close> when the assignment was never run.
  In a freshly started kernel the name is then unbound and the last line raises
  \<^verbatim>\<open>NameError\<close>.
\<close>

fun bibcode_match_loop :: "resource list \<Rightarrow> string \<Rightarrow> int \<Rightarrow> int option" where
  "bibcode_match_loop [] bibcode idx = None"
| "bibcode_match_loop (s # rest) bibcode idx =
     (let idx' = idx + 1
      in if str_contains (source_value s) bibcode then Some idx'
         else bibcode_match_loop rest bibcode idx')"

definition bibcode_cell :: "resource list \<Rightarrow> string \<Rightarrow> error + resource" where
  "bibcode_cell tap_services bibcode =
     (case bibcode_match_loop tap_services bibcode (- 1) of
        None \<Rightarrow> Inl NameError
      | Some myidx \<Rightarrow> getitem tap_services myidx)"

subsection \<open>Table-name selection\<close>

text \<open>
  \<^verbatim>\<open>
  for name in tables.keys():
      if short_name in name:
          print(name)
  \<close>
  prints every table name that contains the short name.
\<close>

fun substring_table_loop :: "string list \<Rightarrow> string \<Rightarrow> string list \<Rightarrow> string list" where
  "substring_table_loop [] short printed = printed"
| "substring_table_loop (name # rest) short printed =
     substring_table_loop rest short
       (if str_contains name short then printed @ [name] else printed)"

text \<open>
  \<^verbatim>\<open>
  for name in tables.keys():
      if name.startswith(short_name):
          print(name)
          tablename=name
  \<close>
  prints every table name that starts with the short name and assigns each of
  them to \<open>tablename\<close> in turn. The state of the loop is the printed lines and the
  binding of \<open>tablename\<close>, \<open>None\<close> as long as the assignment has not run.
\<close>

fun startswith_table_loop ::
  "string list \<Rightarrow> string \<Rightarrow> string list \<times> string option \<Rightarrow> string list \<times> string option" where
  "startswith_table_loop [] short st = st"
| "startswith_table_loop (name # rest) short (printed, tablename) =
     startswith_table_loop rest short
       (if startswith name short then (printed @ [name], Some name)
        else (printed, tablename))"

definition startswith_cell :: "string list \<Rightarrow> string \<Rightarrow> string list \<times> string option" where
  "startswith_cell tables short = startswith_table_loop tables short ([], None)"

subsection \<open>The operations as the specification words them\<close>

text \<open>
  The specification names three outcomes of a lookup. The two definitions below
  follow its sentences for \<open>findByBibcode\<close> and \<open>resolveTableName\<close>; they are
  compared with the cells above.
\<close>

datatype 'a outcome = Found 'a | NotFound | Ambiguous "'a list"

definition findByBibcode_spec :: "resource list \<Rightarrow> string \<Rightarrow> resource outcome" where
  "findByBibcode_spec collection bibcode =
     (case List.find (\<lambda>r. source_value r = bibcode) collection of
        None \<Rightarrow> NotFound
      | Some r \<Rightarrow> Found r)"

definition resolveTableName_spec :: "string list \<Rightarrow> string \<Rightarrow> string outcome" where
  "resolveTableName_spec tableNames shortName =
     (case filter (\<lambda>name. startswith name shortName) tableNames of
        [] \<Rightarrow> NotFound
      | [name] \<Rightarrow> Found name
      | candidates \<Rightarrow> Ambiguous candidates)"

text \<open>What a cell leaves behind, read as an outcome: a raised error or an unbound name is no result.\<close>

definition outcome_of_result :: "error + 'a \<Rightarrow> 'a outcome" where
  "outcome_of_result r = (case r of Inl e \<Rightarrow> NotFound | Inr x \<Rightarrow> Found x)"

definition outcome_of_binding :: "'a option \<Rightarrow> 'a outcome" where
  "outcome_of_binding b = (case b of None \<Rightarrow> NotFound | Some x \<Rightarrow> Found x)"

subsection \<open>Example collections\<close>

definition rec_of :: "string \<Rightarrow> string \<Rightarrow> string \<Rightarrow> resource" where
  "rec_of sn descr bib =
     \<lparr>short_name = sn, ivoid = ''ivo://example/'' @ sn, res_description = descr,
      creators = [], source_value = bib, access_url = ''http://example/tap''\<rparr>"

definition five_records :: "resource list" where
  "five_records =
     [rec_of ''I/1'' ''proper motions of stars'' '''',
      rec_of ''I/90'' ''photovisual magnitude and color index'' ''1970MmRAS..73..125E'',
      rec_of ''I/2'' ''magnitude only'' '''',
      rec_of ''J/3'' ''color and magnitude of members'' ''1998A&A...329..101R'',
      rec_of ''J/4'' ''Magnitude and Color, capitalised'' '''']"

definition eight_records :: "resource list" where
  "eight_records =
     [rec_of ''A'' '''' '''', rec_of ''VizierX'' '''' '''', rec_of ''B'' '''' '''',
      rec_of ''C'' '''' '''', rec_of ''VizierX'' '''' '''', rec_of ''D'' '''' '''',
      rec_of ''E'' '''' '''', rec_of ''VizierX'' '''' '''']"


subsection \<open>The cells in a running kernel\<close>







subsection \<open>Auxiliary functions for the proofs\<close>

text \<open>
  \<open>short_at result i\<close> is the short name of the record that \<open>result[i]\<close> reads.
  \<open>keep_first key seen xs\<close> walks \<open>xs\<close> and keeps an element when its key is
  neither in \<open>seen\<close> nor the key of an element kept before it; it is what the loop
  of \<^verbatim>\<open>getunique\<close> computes when no index is out of range
  (lemma \<open>getunique_loop_ok\<close>).
\<close>

definition short_at :: "resource list \<Rightarrow> int \<Rightarrow> string" where
  "short_at result i = short_name (item result i)"

fun keep_first :: "('a \<Rightarrow> 'k) \<Rightarrow> 'k list \<Rightarrow> 'a list \<Rightarrow> 'a list" where
  "keep_first key seen [] = []"
| "keep_first key seen (i # rest) =
     (if key i \<in> set seen then keep_first key seen rest
      else i # keep_first key (seen @ [key i]) rest)"

section \<open>Properties\<close>

subsection \<open>Strings\<close>

lemma startswith_iff: "startswith s p \<longleftrightarrow> (\<exists>t. s = p @ t)"
  by (induction s p rule: startswith.induct) auto

lemma str_contains_iff: "str_contains s sub \<longleftrightarrow> (\<exists>ps ss. s = ps @ sub @ ss)"
proof (induction s)
  case Nil
  then show ?case by auto
next
  case (Cons c cs)
  show ?case
  proof
    assume "str_contains (c # cs) sub"
    then consider "startswith (c # cs) sub" | "str_contains cs sub" by auto
    then show "\<exists>ps ss. c # cs = ps @ sub @ ss"
    proof cases
      case 1
      then obtain t where "c # cs = sub @ t" by (auto simp: startswith_iff)
      then have "c # cs = [] @ sub @ t" by simp
      then show ?thesis by blast
    next
      case 2
      then obtain ps ss where "cs = ps @ sub @ ss" using Cons.IH by auto
      then have "c # cs = (c # ps) @ sub @ ss" by simp
      then show ?thesis by blast
    qed
  next
    assume "\<exists>ps ss. c # cs = ps @ sub @ ss"
    then obtain ps ss where eq: "c # cs = ps @ sub @ ss" by blast
    show "str_contains (c # cs) sub"
    proof (cases ps)
      case Nil
      then have "startswith (c # cs) sub" using eq by (auto simp: startswith_iff)
      then show ?thesis by simp
    next
      case (Cons p ps')
      then have "cs = ps' @ sub @ ss" using eq by simp
      then have "str_contains cs sub" using Cons.IH by blast
      then show ?thesis by simp
    qed
  qed
qed

lemma split_from_nonempty: "[] \<notin> set (split_from w cs)"
  by (induction w cs rule: split_from.induct) simp_all

lemma split_nonempty: "[] \<notin> set (split s)"
  by (simp add: split_def split_from_nonempty)

text \<open>
  Every list of non-empty words without whitespace is what \<^verbatim>\<open>split\<close> returns for
  some string: the words written one after the other, a space after each.
\<close>

lemma isspace_space: "isspace CHR '' ''"
  by (simp add: isspace_def)

lemma split_from_word:
  "\<forall>c \<in> set w. \<not> isspace c \<Longrightarrow> split_from acc (w @ rest) = split_from (acc @ w) rest"
  by (induction w arbitrary: acc) simp_all

lemma split_words:
  "\<forall>w \<in> set ws. w \<noteq> [] \<and> (\<forall>c \<in> set w. \<not> isspace c) \<Longrightarrow>
   split (concat (map (\<lambda>w. w @ '' '') ws)) = ws"
proof (induction ws)
  case Nil
  then show ?case by (simp add: split_def)
next
  case (Cons w ws)
  let ?rest = "concat (map (\<lambda>w. w @ '' '') ws)"
  from Cons.prems have w: "w \<noteq> []" "\<forall>c \<in> set w. \<not> isspace c" by simp_all
  from Cons have IH: "split_from [] ?rest = ws" by (simp add: split_def)
  have "split_from [] (w @ CHR '' '' # ?rest) = split_from ([] @ w) (CHR '' '' # ?rest)"
    using w(2) by (rule split_from_word)
  also have "\<dots> = w # split_from [] ?rest" using w(1) by (simp add: isspace_space)
  finally show ?case by (simp add: split_def IH)
qed

subsection \<open>The loops of \<^verbatim>\<open>getrow\<close>\<close>

lemma length_filter_all: "length (filter P xs) = length xs \<longleftrightarrow> (\<forall>x \<in> set xs. P x)"
proof (induction xs)
  case Nil
  then show ?case by simp
next
  case (Cons x xs)
  have "length (filter P xs) \<le> length xs" by simp
  then have "length (filter P xs) \<noteq> Suc (length xs)" by linarith
  with Cons show ?case by simp
qed

lemma n_match_loop_count:
  "n_match_loop keys d n = n + length (filter (str_contains d) keys)"
  by (induction keys arbitrary: n) simp_all

lemma n_match_all:
  "n_match_loop keys d 0 = length keys \<longleftrightarrow> (\<forall>k \<in> set keys. str_contains d k)"
  by (simp add: n_match_loop_count length_filter_all)

lemma getrow_loop_filter:
  "getrow_loop result keys is ind =
     ind @ map int (filter (\<lambda>i. \<forall>k \<in> set keys. str_contains (res_description (result ! i)) k) is)"
  by (induction "is" arbitrary: ind) (simp_all add: n_match_all Let_def)

subsection \<open>The loop of \<^verbatim>\<open>getunique\<close>\<close>

lemma getunique_loop_ok:
  "\<forall>i \<in> set is. valid_index result i \<Longrightarrow>
   getunique_loop result is seen acc = Inr (acc @ keep_first (short_at result) seen is)"
  by (induction "is" arbitrary: seen acc) (simp_all add: getitem_def short_at_def Let_def)

lemma getunique_loop_err:
  "\<not> (\<forall>i \<in> set is. valid_index result i) \<Longrightarrow>
   getunique_loop result is seen acc = Inl IndexError"
proof (induction "is" arbitrary: seen acc)
  case Nil
  then show ?case by simp
next
  case (Cons i rest)
  show ?case
  proof (cases "valid_index result i")
    case True
    with Cons.prems have "\<not> (\<forall>j \<in> set rest. valid_index result j)" by simp
    then have "\<And>s a. getunique_loop result rest s a = Inl IndexError" by (rule Cons.IH)
    with True show ?thesis by (simp add: getitem_def Let_def)
  next
    case False
    then show ?thesis by (simp add: getitem_def)
  qed
qed

lemma getunique_ok:
  "\<forall>i \<in> set ind. valid_index result i \<Longrightarrow>
   getunique result ind = Inr (keep_first (short_at result) [] ind)"
  by (simp add: getunique_def getunique_loop_ok)

lemma getunique_Inr_valid:
  "getunique result ind = Inr out \<Longrightarrow> \<forall>i \<in> set ind. valid_index result i"
proof (rule ccontr)
  assume "getunique result ind = Inr out" and "\<not> (\<forall>i \<in> set ind. valid_index result i)"
  then show False by (simp add: getunique_def getunique_loop_err)
qed

lemma keep_first_subseq: "subseq (keep_first key seen is) is"
  by (induction "is" arbitrary: seen) (auto intro: list_emb_Cons)

lemma keep_first_set: "key ` set (keep_first key seen is) = key ` set is - set seen"
  by (induction "is" arbitrary: seen) auto

lemma keep_first_distinct: "distinct (map key (keep_first key seen is))"
proof (induction "is" arbitrary: seen)
  case Nil
  then show ?case by simp
next
  case (Cons i rest)
  have "key i \<notin> key ` set (keep_first key (seen @ [key i]) rest)"
    by (simp add: keep_first_set)
  with Cons show ?case by simp
qed

lemma keep_first_fixed:
  "distinct (map key js) \<Longrightarrow> key ` set js \<inter> set seen = {} \<Longrightarrow> keep_first key seen js = js"
proof (induction js arbitrary: seen)
  case Nil
  then show ?case by simp
next
  case (Cons j rest)
  from Cons.prems have a: "key j \<notin> set seen" and b: "distinct (map key rest)"
    and c: "key j \<notin> key ` set rest" and d: "key ` set rest \<inter> set seen = {}"
    by auto
  from c d have "key ` set rest \<inter> set (seen @ [key j]) = {}" by auto
  with b have "keep_first key (seen @ [key j]) rest = rest" by (rule Cons.IH)
  with a show ?case by simp
qed

lemma keep_first_idem: "keep_first key seen (keep_first key seen is) = keep_first key seen is"
proof (rule keep_first_fixed)
  show "distinct (map key (keep_first key seen is))" by (rule keep_first_distinct)
  show "key ` set (keep_first key seen is) \<inter> set seen = {}" by (auto simp: keep_first_set)
qed

text \<open>
  Position by position: the element at position \<open>p\<close> is kept exactly when its key
  is new, that is, not in \<open>seen\<close> and not the key of an earlier position.
\<close>

lemma keep_first_positions:
  "keep_first key seen is =
     map (\<lambda>p. is ! p)
       (filter (\<lambda>p. key (is ! p) \<notin> set seen \<and> (\<forall>q<p. key (is ! q) \<noteq> key (is ! p)))
          [0 ..< length is])"
proof (induction "is" arbitrary: seen)
  case Nil
  then show ?case by simp
next
  case (Cons i rest)
  let ?P = "\<lambda>s xs p. key (xs ! p) \<notin> set s \<and> (\<forall>q<p. key (xs ! q) \<noteq> key (xs ! p))"
  have upt: "[0 ..< length (i # rest)] = 0 # map Suc [0 ..< length rest]"
    by (simp add: upt_conv_Cons map_Suc_upt del: upt_Suc)
  have shift: "\<And>s p. ?P s (i # rest) (Suc p) \<longleftrightarrow> ?P s rest p \<and> key i \<noteq> key (rest ! p)"
    by (auto simp: All_less_Suc2 less_Suc_eq_0_disj)
  have tail: "\<And>s. map (\<lambda>p. (i # rest) ! p) (filter (?P s (i # rest)) (map Suc [0 ..< length rest]))
        = map (\<lambda>p. rest ! p) (filter (\<lambda>p. ?P s rest p \<and> key i \<noteq> key (rest ! p)) [0 ..< length rest])"
    by (simp only: filter_map comp_def shift map_map) simp
  have head: "\<And>s. ?P s (i # rest) 0 \<longleftrightarrow> key i \<notin> set s"
    by simp
  have split: "\<And>s. map (\<lambda>p. (i # rest) ! p) (filter (?P s (i # rest)) [0 ..< length (i # rest)])
        = (if key i \<notin> set s then [i] else [])
          @ map (\<lambda>p. rest ! p) (filter (\<lambda>p. ?P s rest p \<and> key i \<noteq> key (rest ! p)) [0 ..< length rest])"
    by (simp only: upt filter.simps head tail [symmetric] split: if_splits) simp
  show ?case
  proof (cases "key i \<in> set seen")
    case True
    have "filter (\<lambda>p. ?P seen rest p \<and> key i \<noteq> key (rest ! p)) [0 ..< length rest]
        = filter (?P seen rest) [0 ..< length rest]"
      using True by (intro filter_cong) auto
    then have "map (\<lambda>p. (i # rest) ! p) (filter (?P seen (i # rest)) [0 ..< length (i # rest)])
        = map (\<lambda>p. rest ! p) (filter (?P seen rest) [0 ..< length rest])"
      using True by (simp only: split) simp
    also have "\<dots> = keep_first key seen rest" by (rule Cons.IH [symmetric])
    also have "\<dots> = keep_first key seen (i # rest)" using True by simp
    finally show ?thesis by (rule sym)
  next
    case False
    have "filter (\<lambda>p. ?P seen rest p \<and> key i \<noteq> key (rest ! p)) [0 ..< length rest]
        = filter (?P (seen @ [key i]) rest) [0 ..< length rest]"
      by (intro filter_cong) auto
    then have "map (\<lambda>p. (i # rest) ! p) (filter (?P seen (i # rest)) [0 ..< length (i # rest)])
        = i # map (\<lambda>p. rest ! p) (filter (?P (seen @ [key i]) rest) [0 ..< length rest])"
      using False by (simp only: split) simp
    also have "\<dots> = i # keep_first key (seen @ [key i]) rest" by (simp only: Cons.IH [symmetric])
    also have "\<dots> = keep_first key seen (i # rest)" using False by simp
    finally show ?thesis by (rule sym)
  qed
qed

subsection \<open>The table-name loops\<close>

lemma substring_table_loop_filter:
  "substring_table_loop tables short printed =
     printed @ filter (\<lambda>name. str_contains name short) tables"
  by (induction tables arbitrary: printed) simp_all

lemma startswith_table_loop_filter:
  "startswith_table_loop tables short (printed, tablename) =
     (printed @ filter (\<lambda>name. startswith name short) tables,
      (case filter (\<lambda>name. startswith name short) tables of
         [] \<Rightarrow> tablename
       | m # ms \<Rightarrow> Some (last (m # ms))))"
proof (induction tables arbitrary: printed tablename)
  case Nil
  then show ?case by simp
next
  case (Cons name rest)
  show ?case
  proof (cases "startswith name short")
    case True
    then show ?thesis
      by (simp add: Cons.IH split: list.splits)
  next
    case False
    then show ?thesis by (simp add: Cons.IH)
  qed
qed

section \<open>The claims\<close>

subsection \<open>Keyword filter\<close>

lemma five_rows: "getrow five_records (Some ''magnitude color'') = Inr [1, 3]"
  by code_simp

lemma sorted_positions: "sorted_wrt (<) (map int (filter P [0 ..< n]))"
  by (simp add: sorted_wrt_map sorted_wrt_filter)

text \<open>
  Claim C1. \<^verbatim>\<open>getrow\<close> returns exactly the positions \<open>i\<close> of the collection, in
  increasing order and without repetition, whose description contains every
  keyword as a literal substring: the description is \<open>ps @ k @ ss\<close> for some
  \<open>ps\<close> and \<open>ss\<close>, character for character, so the test is case sensitive and
  nothing is normalised. The keywords are the words of the keyword string (any
  list of non-empty words without whitespace, by \<open>split_words\<close>); the same
  holds for the loop run on any list of keys. Of the five example records,
  the second and the fourth contain both \<open>magnitude\<close> and \<open>color\<close> (the fifth has
  them capitalised), and the call returns \<open>[1, 3]\<close>.
\<close>

theorem filterByKeywords_exact:
  "getrow result (Some kw) =
     Inr (map int (filter
            (\<lambda>i. \<forall>k \<in> set (split kw). \<exists>ps ss. res_description (result ! i) = ps @ k @ ss)
            [0 ..< length result]))
   \<and> getrow_loop result keys [0 ..< length result] [] =
       map int (filter
            (\<lambda>i. \<forall>k \<in> set keys. \<exists>ps ss. res_description (result ! i) = ps @ k @ ss)
            [0 ..< length result])
   \<and> sorted_wrt (<) (getrow_loop result keys [0 ..< length result] [])
   \<and> distinct (getrow_loop result keys [0 ..< length result] [])
   \<and> getrow five_records (Some ''magnitude color'') = Inr [1, 3]"
proof -
  have a: "getrow_loop result ks [0 ..< length result] [] =
       map int (filter
            (\<lambda>i. \<forall>k \<in> set ks. \<exists>ps ss. res_description (result ! i) = ps @ k @ ss)
            [0 ..< length result])" for ks
    by (simp add: getrow_loop_filter str_contains_iff)
  have b: "sorted_wrt (<) (getrow_loop result keys [0 ..< length result] [])"
    unfolding a by (rule sorted_positions)
  then have c: "distinct (getrow_loop result keys [0 ..< length result] [])"
    by (simp add: strict_sorted_iff)
  have d: "getrow result (Some kw) = Inr (getrow_loop result (split kw) [0 ..< length result] [])"
    by (simp add: getrow_def)
  show ?thesis
    unfolding d using a b c five_rows by (simp only: simp_thms)
qed

theorem filterByKeywords_exact_witness:
  "split ''magnitude color'' = [''magnitude'', ''color'']
   \<and> getrow five_records (Some ''magnitude color'') = Inr [1, 3]"
proof -
  have a: "split ''magnitude color'' = [''magnitude'', ''color'']" by code_simp
  have "getrow five_records (Some ''magnitude color'') =
      Inr (map int (filter
            (\<lambda>i. \<forall>k \<in> set (split ''magnitude color'').
                   str_contains (res_description (five_records ! i)) k)
            [0 ..< length five_records]))"
    using filterByKeywords_exact [of five_records "''magnitude color''" "[]"]
    by (simp only: str_contains_iff)
  also have "\<dots> = Inr [1, 3]" by code_simp
  finally show ?thesis using a by (intro conjI)
qed

subsection \<open>Table names\<close>

text \<open>
  Claim C2, as stated, fails: \<open>I/900/members\<close> starts with \<open>I/90\<close>, so the
  \<^verbatim>\<open>startswith\<close> loop prints it together with \<open>I/90/catalog\<close>.
\<close>

theorem resolveTableName_prefix_counterexample:
  "startswith ''I/900/members'' ''I/90''
   \<and> fst (startswith_cell [''I/90/catalog'', ''I/900/members''] ''I/90'') \<noteq> [''I/90/catalog'']"
  by (simp add: startswith_cell_def)

text \<open>
  Claim C2, amended. The \<^verbatim>\<open>startswith\<close> loop selects a table name exactly when the
  short name is a prefix of it, where the earlier loop selects every name that
  contains the short name anywhere. Given the names \<open>I/90/catalog\<close> and
  \<open>VI/90/table\<close> and the short name \<open>I/90\<close>, the prefix loop selects only
  \<open>I/90/catalog\<close> and the substring loop selects both. A name of a longer
  catalogue number such as \<open>I/900/members\<close> has the prefix \<open>I/90\<close> too and is
  selected as well.
\<close>

theorem resolveTableName_prefix_rule:
  "fst (startswith_cell tables short) = filter (\<lambda>name. \<exists>suffix. name = short @ suffix) tables
   \<and> substring_table_loop tables short [] =
       filter (\<lambda>name. \<exists>ps ss. name = ps @ short @ ss) tables
   \<and> fst (startswith_cell [''I/90/catalog'', ''VI/90/table''] ''I/90'') = [''I/90/catalog'']
   \<and> substring_table_loop [''I/90/catalog'', ''VI/90/table''] ''I/90'' [] =
       [''I/90/catalog'', ''VI/90/table'']
   \<and> fst (startswith_cell [''I/90/catalog'', ''I/900/members''] ''I/90'') =
       [''I/90/catalog'', ''I/900/members'']"
proof -
  have a: "fst (startswith_cell tables short) =
      filter (\<lambda>name. \<exists>suffix. name = short @ suffix) tables"
    by (simp add: startswith_cell_def startswith_table_loop_filter startswith_iff)
  have b: "substring_table_loop tables short [] =
      filter (\<lambda>name. \<exists>ps ss. name = ps @ short @ ss) tables"
    by (simp add: substring_table_loop_filter str_contains_iff)
  have c: "fst (startswith_cell [''I/90/catalog'', ''VI/90/table''] ''I/90'') = [''I/90/catalog'']"
    by (simp add: startswith_cell_def)
  have d: "substring_table_loop [''I/90/catalog'', ''VI/90/table''] ''I/90'' [] =
      [''I/90/catalog'', ''VI/90/table'']"
    by simp
  have e: "fst (startswith_cell [''I/90/catalog'', ''I/900/members''] ''I/90'') =
      [''I/90/catalog'', ''I/900/members'']"
    by (simp add: startswith_cell_def)
  from a b c d e show ?thesis by (intro conjI)
qed

text \<open>
  Claim C5, as stated, fails: with two names that start with the short name the
  loop leaves \<open>tablename\<close> bound to one of them, where the specification's
  \<open>resolveTableName\<close> answers \<open>Ambiguous\<close> with both.
\<close>

theorem resolveTableName_outcome_counterexample:
  "outcome_of_binding (snd (startswith_cell [''I/90/catalog'', ''I/90/members''] ''I/90''))
     \<noteq> resolveTableName_spec [''I/90/catalog'', ''I/90/members''] ''I/90''"
  by (simp add: startswith_cell_def outcome_of_binding_def resolveTableName_spec_def)

text \<open>
  Claim C5, amended. The loop prints the table names that start with the short
  name, all of them and in their order, and leaves \<open>tablename\<close> bound to the last
  of them: to the single candidate when exactly one name matches, as for
  \<open>I/90\<close> among \<open>II/7/x\<close>, \<open>I/90/catalog\<close> and \<open>VI/90/table\<close>, and to the last
  match when several names match. When no name matches, nothing is printed and
  the loop does not assign \<open>tablename\<close>.
\<close>

theorem resolveTableName_last_match:
  "startswith_cell tables short =
     (filter (\<lambda>name. startswith name short) tables,
      (case filter (\<lambda>name. startswith name short) tables of
         [] \<Rightarrow> None
       | m # ms \<Rightarrow> Some (last (m # ms))))
   \<and> startswith_cell [''II/7/x'', ''I/90/catalog'', ''VI/90/table''] ''I/90'' =
       ([''I/90/catalog''], Some ''I/90/catalog'')
   \<and> startswith_cell [''I/90/catalog'', ''I/90/members''] ''I/90'' =
       ([''I/90/catalog'', ''I/90/members''], Some ''I/90/members'')
   \<and> startswith_cell [''II/7/x'', ''VI/90/table''] ''I/90'' = ([], None)"
  by (simp add: startswith_cell_def startswith_table_loop_filter)

subsection \<open>Keyword filter without keywords\<close>

lemma split_from_empty_iff: "split_from w cs = [] \<longleftrightarrow> w = [] \<and> (\<forall>c \<in> set cs. isspace c)"
  by (induction w cs rule: split_from.induct) auto

lemma five_all: "getrow five_records (Some []) = Inr [0, 1, 2, 3, 4]"
  by code_simp

text \<open>
  Claim C9. When the keyword string splits into no keyword at all, which happens
  exactly when every character of it is whitespace (the empty string is the
  first case), \<^verbatim>\<open>getrow\<close> raises nothing and returns the position of every
  record, \<open>0\<close> up to \<open>len - 1\<close> in order: with no key, \<open>n_match\<close> and
  \<open>n_keys\<close> are both \<open>0\<close> for every record.
\<close>

theorem filterByKeywords_no_keywords:
  "(split kw = [] \<longrightarrow> getrow result (Some kw) = Inr (map int [0 ..< length result]))
   \<and> (split kw = [] \<longleftrightarrow> (\<forall>c \<in> set kw. isspace c))
   \<and> split [] = []
   \<and> getrow five_records (Some []) = Inr [0, 1, 2, 3, 4]"
proof -
  have a: "getrow result (Some kw) = Inr (map int [0 ..< length result])" if "split kw = []"
    using that by (simp add: getrow_def getrow_loop_filter)
  have b: "split kw = [] \<longleftrightarrow> (\<forall>c \<in> set kw. isspace c)"
    by (simp add: split_def split_from_empty_iff)
  have c: "split [] = []" by (simp add: split_def)
  from a b c five_all show ?thesis by blast
qed

theorem filterByKeywords_no_keywords_witness:
  "split '' '' = [] \<and> getrow five_records (Some '' '') = Inr [0, 1, 2, 3, 4]"
proof -
  have s: "split '' '' = []" by code_simp
  have l: "map int [0 ..< length five_records] = [0, 1, 2, 3, 4]" by code_simp
  from s filterByKeywords_no_keywords [of "'' ''" five_records]
  have "getrow five_records (Some '' '') = Inr (map int [0 ..< length five_records])" by blast
  with s l show ?thesis by simp
qed

subsection \<open>Short-name deduplication\<close>

lemma short_at_fun: "(\<lambda>i. short_name (item result i)) = short_at result"
  by (simp add: short_at_def fun_eq_iff)

lemma keep_first_subset: "set (keep_first key seen is) \<subseteq> set is"
  by (induction "is" arbitrary: seen) auto

lemma eight_all: "getunique eight_records [0, 1, 2, 3, 4, 5, 6, 7] = Inr [0, 1, 2, 3, 5, 6]"
  by code_simp

lemma eight_shared: "getunique eight_records [1, 4, 7] = Inr [1]"
  by code_simp

text \<open>
  Claim C3. When every index of \<open>ind\<close> is an index of the collection,
  \<^verbatim>\<open>getunique\<close> returns the elements of \<open>ind\<close> at exactly those positions \<open>p\<close>
  whose short name differs from the short name at every earlier position \<open>q < p\<close>:
  walking in order, the first index of each short name is kept and each later
  index with that short name is dropped. The result is a subsequence of \<open>ind\<close>
  (the order is kept) and is no longer than \<open>ind\<close>. In the example, the records
  at 1, 4 and 7 share the short name \<open>VizierX\<close>; index 1 is kept and 4 and 7 are
  dropped.
\<close>

theorem deduplicateByShortName_keeps_first:
  "((\<forall>i \<in> set ind. valid_index result i) \<longrightarrow>
      (\<exists>out. getunique result ind = Inr out
         \<and> out = map (\<lambda>p. ind ! p)
                  (filter (\<lambda>p. \<forall>q<p. short_name (item result (ind ! q))
                                        \<noteq> short_name (item result (ind ! p)))
                     [0 ..< length ind])
         \<and> subseq out ind
         \<and> length out \<le> length ind))
   \<and> getunique eight_records [0, 1, 2, 3, 4, 5, 6, 7] = Inr [0, 1, 2, 3, 5, 6]
   \<and> getunique eight_records [1, 4, 7] = Inr [1]"
proof -
  let ?out = "keep_first (short_at result) [] ind"
  have pos: "?out = map (\<lambda>p. ind ! p)
                  (filter (\<lambda>p. \<forall>q<p. short_name (item result (ind ! q))
                                        \<noteq> short_name (item result (ind ! p)))
                     [0 ..< length ind])"
    by (simp add: keep_first_positions [of "short_at result" "[]" ind] short_at_def)
  have sub: "subseq ?out ind" by (rule keep_first_subseq)
  then have len: "length ?out \<le> length ind" by (rule list_emb_length)
  have "\<exists>out. getunique result ind = Inr out
         \<and> out = map (\<lambda>p. ind ! p)
                  (filter (\<lambda>p. \<forall>q<p. short_name (item result (ind ! q))
                                        \<noteq> short_name (item result (ind ! p)))
                     [0 ..< length ind])
         \<and> subseq out ind
         \<and> length out \<le> length ind"
    if "\<forall>i \<in> set ind. valid_index result i"
    using getunique_ok [OF that] pos sub len by blast
  then show ?thesis using eight_all eight_shared by blast
qed

theorem deduplicateByShortName_keeps_first_witness:
  "valid_index eight_records 1 \<and> valid_index eight_records 4 \<and> valid_index eight_records 7
   \<and> getunique eight_records [1, 4, 7] = Inr [1]
   \<and> subseq [1] [1, 4, 7 :: int]"
proof -
  have v: "valid_index eight_records 1" "valid_index eight_records 4" "valid_index eight_records 7"
    by (simp_all add: valid_index_def eight_records_def)
  then have "\<forall>i \<in> set [1, 4, 7]. valid_index eight_records i" by simp
  with deduplicateByShortName_keeps_first [of "[1, 4, 7]" eight_records]
  obtain out where o: "getunique eight_records [1, 4, 7] = Inr out" "subseq out [1, 4, 7]"
    by blast
  have "getunique eight_records [1, 4, 7] = Inr [1]" by code_simp
  with o have "out = [1]" by simp
  with o v show ?thesis by simp
qed

text \<open>
  Claim C6. Deduplication is idempotent: when \<^verbatim>\<open>getunique\<close> returns \<open>out\<close> for
  \<open>ind\<close>, it returns \<open>out\<close> again for \<open>out\<close>. Written with the error case, where
  the \<^verbatim>\<open>IndexError\<close> of the first call is what the composition raises: running
  the function on its own result changes nothing.
\<close>

theorem deduplicateByShortName_idempotent:
  "(getunique result ind = Inr out \<longrightarrow> getunique result out = Inr out)
   \<and> (case getunique result ind of Inl e \<Rightarrow> Inl e | Inr out' \<Rightarrow> getunique result out')
       = getunique result ind"
proof -
  have step: "getunique result xs = Inr ys \<Longrightarrow> getunique result ys = Inr ys" for xs ys
  proof -
    assume r: "getunique result xs = Inr ys"
    then have v: "\<forall>i \<in> set xs. valid_index result i" by (rule getunique_Inr_valid)
    with r have ys: "ys = keep_first (short_at result) [] xs" by (simp add: getunique_ok)
    have "set ys \<subseteq> set xs" unfolding ys by (rule keep_first_subset)
    with v have "\<forall>i \<in> set ys. valid_index result i" by blast
    then have "getunique result ys = Inr (keep_first (short_at result) [] ys)"
      by (rule getunique_ok)
    then show ?thesis unfolding ys by (simp only: keep_first_idem)
  qed
  then have "(case getunique result ind of Inl e \<Rightarrow> Inl e | Inr out' \<Rightarrow> getunique result out')
       = getunique result ind"
    by (cases "getunique result ind") simp_all
  with step show ?thesis by blast
qed

theorem deduplicateByShortName_idempotent_witness:
  "getunique eight_records [0, 1, 2, 3, 4, 5, 6, 7] = Inr [0, 1, 2, 3, 5, 6]
   \<and> getunique eight_records [0, 1, 2, 3, 5, 6] = Inr [0, 1, 2, 3, 5, 6]"
proof -
  have r: "getunique eight_records [0, 1, 2, 3, 4, 5, 6, 7] = Inr [0, 1, 2, 3, 5, 6]"
    by code_simp
  with deduplicateByShortName_idempotent [of eight_records "[0, 1, 2, 3, 4, 5, 6, 7]" "[0, 1, 2, 3, 5, 6]"]
  show ?thesis by blast
qed

lemma eight_repeated: "getunique eight_records [2, 2, 5, 2] = Inr [2, 5]"
  by code_simp

text \<open>
  Claim C10. Whatever \<^verbatim>\<open>getunique\<close> returns is a subsequence of its input list,
  the short names of the records it points to are pairwise distinct, and so no
  index occurs in it twice, even when the input list repeats an index: for the
  input \<open>[2, 2, 5, 2]\<close> the result is \<open>[2, 5]\<close>.
\<close>

theorem deduplicateByShortName_distinct:
  "(getunique result ind = Inr out \<longrightarrow>
      subseq out ind
      \<and> distinct (map (\<lambda>i. short_name (item result i)) out)
      \<and> distinct out)
   \<and> getunique eight_records [2, 2, 5, 2] = Inr [2, 5]"
proof -
  have "subseq out ind \<and> distinct (map (\<lambda>i. short_name (item result i)) out) \<and> distinct out"
    if r: "getunique result ind = Inr out"
  proof -
    from r have "\<forall>i \<in> set ind. valid_index result i" by (rule getunique_Inr_valid)
    with r have out: "out = keep_first (short_at result) [] ind" by (simp add: getunique_ok)
    have a: "subseq out ind" unfolding out by (rule keep_first_subseq)
    have b: "distinct (map (short_at result) out)" unfolding out by (rule keep_first_distinct)
    then have c: "distinct out" by (simp add: distinct_map)
    from a b c show ?thesis by (simp add: short_at_fun)
  qed
  then show ?thesis using eight_repeated by blast
qed

theorem deduplicateByShortName_distinct_witness:
  "getunique eight_records [2, 2, 5, 2] = Inr [2, 5]
   \<and> subseq [2, 5] [2, 2, 5, 2 :: int]
   \<and> distinct (map (\<lambda>i. short_name (item eight_records i)) [2, 5])
   \<and> distinct [2, 5 :: int]"
proof -
  have r: "getunique eight_records [2, 2, 5, 2] = Inr [2, 5]" by code_simp
  with deduplicateByShortName_distinct [of eight_records "[2, 2, 5, 2]" "[2, 5]"]
  show ?thesis by blast
qed

subsection \<open>Bibcode lookup\<close>

lemma bibcode_match_loop_find:
  "bibcode_match_loop t b idx =
     (case List.find (\<lambda>s. str_contains (source_value s) b) t of
        None \<Rightarrow> None
      | Some r \<Rightarrow>
          Some (idx + 1 + int (length (takeWhile (\<lambda>s. \<not> str_contains (source_value s) b) t))))"
  by (induction t arbitrary: idx) (auto simp: Let_def split: option.splits)

lemma find_takeWhile:
  "List.find P t = Some r \<Longrightarrow>
   length (takeWhile (\<lambda>s. \<not> P s) t) < length t \<and> t ! length (takeWhile (\<lambda>s. \<not> P s) t) = r"
  by (induction t) (auto split: if_splits)

lemma bibcode_cell_find:
  "bibcode_cell t b =
     (case List.find (\<lambda>s. str_contains (source_value s) b) t of
        None \<Rightarrow> Inl NameError
      | Some r \<Rightarrow> Inr r)"
proof (cases "List.find (\<lambda>s. str_contains (source_value s) b) t")
  case None
  then show ?thesis by (simp add: bibcode_cell_def bibcode_match_loop_find)
next
  case (Some r)
  let ?p = "length (takeWhile (\<lambda>s. \<not> str_contains (source_value s) b) t)"
  from Some have p: "?p < length t" "t ! ?p = r"
    using find_takeWhile [of "\<lambda>s. str_contains (source_value s) b" t r] by simp_all
  from Some have "bibcode_match_loop t b (- 1) = Some (int ?p)"
    by (simp add: bibcode_match_loop_find)
  moreover from p have "getitem t (int ?p) = Inr r"
    by (simp add: getitem_def valid_index_def item_def)
  ultimately show ?thesis using Some by (simp add: bibcode_cell_def)
qed

lemma find_positions:
  "List.find Q t = (case filter (\<lambda>i. Q (t ! i)) [0 ..< length t] of
                      [] \<Rightarrow> None | i # _ \<Rightarrow> Some (t ! i))"
proof (induction t)
  case Nil
  then show ?case by simp
next
  case (Cons x t)
  have upt: "[0 ..< length (x # t)] = 0 # map Suc [0 ..< length t]"
    by (simp add: upt_conv_Cons map_Suc_upt del: upt_Suc)
  have tl: "filter (\<lambda>i. Q ((x # t) ! i)) (map Suc [0 ..< length t])
      = map Suc (filter (\<lambda>i. Q (t ! i)) [0 ..< length t])"
    by (simp add: filter_map comp_def)
  show ?case
  proof (cases "Q x")
    case True
    then show ?thesis by (simp only: upt) simp
  next
    case False
    then show ?thesis
      by (simp only: upt filter.simps nth_Cons_0 if_False tl) (simp add: Cons.IH split: list.splits)
  qed
qed

lemma np_where_spec:
  "findByBibcode_spec t b =
     (case np_where_bibcode t b of [] \<Rightarrow> NotFound | i # _ \<Rightarrow> Found (t ! nat i))"
proof -
  have "List.find (\<lambda>r. source_value r = b) t =
     (case filter (\<lambda>i. source_value (t ! i) = b) [0 ..< length t] of
        [] \<Rightarrow> None | i # _ \<Rightarrow> Some (t ! i))"
    by (rule find_positions)
  then show ?thesis
    by (simp add: findByBibcode_spec_def np_where_bibcode_def split: list.splits)
qed

lemma five_truncated:
  "bibcode_cell five_records ''1970MmRAS'' = Inr (five_records ! 1)"
  by code_simp

lemma five_truncated_spec: "findByBibcode_spec five_records ''1970MmRAS'' = NotFound"
  by code_simp

lemma five_absent: "bibcode_cell five_records ''0000ZZZ'' = Inl NameError"
  by code_simp

text \<open>
  Claim C4, as stated, fails on the loop. It tests \<^verbatim>\<open>bibcode in s['source_value']\<close>,
  so the truncated bibcode \<open>1970MmRAS\<close> selects the record of
  \<open>1970MmRAS..73..125E\<close>, where a lookup by exact equality finds nothing. And
  for a bibcode that no record contains the cell ends in \<^verbatim>\<open>NameError\<close>, not in a
  \<open>NotFound\<close> result.
\<close>

theorem findByBibcode_counterexample:
  "outcome_of_result (bibcode_cell five_records ''1970MmRAS'')
     \<noteq> findByBibcode_spec five_records ''1970MmRAS''
   \<and> bibcode_cell five_records ''0000ZZZ'' = Inl NameError"
  by (simp add: five_truncated five_truncated_spec five_absent outcome_of_result_def)

text \<open>
  Claim C4, amended. The loop is a linear scan that selects the first record
  whose \<open>source_value\<close> contains the bibcode as a substring; when no record
  contains it, \<open>myidx\<close> is never assigned and the lookup \<^verbatim>\<open>tap_services[myidx]\<close>
  raises \<^verbatim>\<open>NameError\<close> (in a fresh kernel). Whenever no \<open>source_value\<close> of the
  collection contains the bibcode without being equal to it, the cell finds
  what the specification's \<open>findByBibcode\<close> finds: the first record whose
  \<open>source_value\<close> equals the bibcode, or nothing. The \<^verbatim>\<open>np.where\<close> variant selects
  by equality: its first position is that of the first equal record, and its
  selection is empty, with no error, when there is none.
\<close>

theorem findByBibcode_first_containing:
  "bibcode_cell tap_services bibcode =
     (case List.find (\<lambda>s. \<exists>ps ss. source_value s = ps @ bibcode @ ss) tap_services of
        None \<Rightarrow> Inl NameError
      | Some r \<Rightarrow> Inr r)
   \<and> ((\<forall>s \<in> set tap_services.
          (\<exists>ps ss. source_value s = ps @ bibcode @ ss) \<longrightarrow> source_value s = bibcode)
       \<longrightarrow> outcome_of_result (bibcode_cell tap_services bibcode)
             = findByBibcode_spec tap_services bibcode)
   \<and> findByBibcode_spec tap_services bibcode =
       (case np_where_bibcode tap_services bibcode of
          [] \<Rightarrow> NotFound
        | i # _ \<Rightarrow> Found (tap_services ! nat i))"
proof -
  let ?C = "\<lambda>s. str_contains (source_value s) bibcode"
  have a: "bibcode_cell tap_services bibcode =
     (case List.find (\<lambda>s. \<exists>ps ss. source_value s = ps @ bibcode @ ss) tap_services of
        None \<Rightarrow> Inl NameError
      | Some r \<Rightarrow> Inr r)"
    by (simp add: bibcode_cell_find str_contains_iff)
  have b: "outcome_of_result (bibcode_cell tap_services bibcode)
             = findByBibcode_spec tap_services bibcode"
    if h: "\<forall>s \<in> set tap_services.
          (\<exists>ps ss. source_value s = ps @ bibcode @ ss) \<longrightarrow> source_value s = bibcode"
  proof -
    have "?C s \<longleftrightarrow> source_value s = bibcode" if "s \<in> set tap_services" for s
    proof
      assume "?C s"
      with h that show "source_value s = bibcode" by (simp add: str_contains_iff)
    next
      assume "source_value s = bibcode"
      then have "source_value s = [] @ bibcode @ []" by simp
      then show "?C s" unfolding str_contains_iff by blast
    qed
    then have "List.find ?C tap_services = List.find (\<lambda>r. source_value r = bibcode) tap_services"
      by (intro find_cong) simp_all
    then show ?thesis
      by (simp add: bibcode_cell_find findByBibcode_spec_def outcome_of_result_def
            split: option.splits)
  qed
  from a b np_where_spec [of tap_services bibcode] show ?thesis by blast
qed

theorem findByBibcode_first_containing_witness:
  "bibcode_cell five_records ''1998A&A...329..101R'' = Inr (five_records ! 3)
   \<and> findByBibcode_spec five_records ''1998A&A...329..101R'' = Found (five_records ! 3)
   \<and> source_value (five_records ! 3) = ''1998A&A...329..101R''"
proof -
  have c: "bibcode_cell five_records ''1998A&A...329..101R'' = Inr (five_records ! 3)"
    by code_simp
  have s: "source_value (five_records ! 3) = ''1998A&A...329..101R''" by code_simp
  have h: "\<forall>s \<in> set five_records.
      str_contains (source_value s) ''1998A&A...329..101R''
        \<longrightarrow> source_value s = ''1998A&A...329..101R''"
    by code_simp
  then have "\<forall>s \<in> set five_records.
      (\<exists>ps ss. source_value s = ps @ ''1998A&A...329..101R'' @ ss)
        \<longrightarrow> source_value s = ''1998A&A...329..101R''"
    by (simp only: str_contains_iff)
  with findByBibcode_first_containing [of five_records "''1998A&A...329..101R''"]
  have "outcome_of_result (bibcode_cell five_records ''1998A&A...329..101R'')
      = findByBibcode_spec five_records ''1998A&A...329..101R''"
    by blast
  with c have "findByBibcode_spec five_records ''1998A&A...329..101R'' = Found (five_records ! 3)"
    by (simp add: outcome_of_result_def)
  with c s show ?thesis by (intro conjI)
qed

subsection \<open>Keyword filter: empty results\<close>

lemma getrow_Some:
  "getrow result (Some kw) =
     Inr (map int (filter
            (\<lambda>i. \<forall>k \<in> set (split kw). str_contains (res_description (result ! i)) k)
            [0 ..< length result]))"
  by (simp add: getrow_def getrow_loop_filter)

lemma eight_none: "getrow eight_records (Some ''magnitude color'') = Inr []"
  by code_simp

text \<open>
  Claim C7. With a keyword string, \<^verbatim>\<open>getrow\<close> never raises: it returns a list for
  every collection, the empty list for the empty collection and the empty list
  when every record lacks one of the keywords. A record whose description is
  empty is never selected when there is at least one keyword, since the words
  that \<^verbatim>\<open>split\<close> produces are not empty. (A record always carries a description
  text; a registry row without one carries the empty text.)
\<close>

theorem filterByKeywords_empty_results:
  "getrow [] (Some kw) = Inr []
   \<and> (\<exists>out. getrow result (Some kw) = Inr out)
   \<and> ((\<forall>i<length result. \<exists>k \<in> set (split kw).
          \<not> (\<exists>ps ss. res_description (result ! i) = ps @ k @ ss))
       \<longrightarrow> getrow result (Some kw) = Inr [])
   \<and> (split kw \<noteq> [] \<and> i < length result \<and> res_description (result ! i) = []
       \<longrightarrow> (\<exists>out. getrow result (Some kw) = Inr out \<and> int i \<notin> set out))"
proof -
  have a: "getrow [] (Some kw) = Inr []" by (simp add: getrow_Some)
  have b: "\<exists>out. getrow result (Some kw) = Inr out" by (simp add: getrow_Some)
  have c: "(\<forall>i<length result. \<exists>k \<in> set (split kw).
          \<not> (\<exists>ps ss. res_description (result ! i) = ps @ k @ ss))
       \<longrightarrow> getrow result (Some kw) = Inr []"
  proof
    assume that: "\<forall>i<length result. \<exists>k \<in> set (split kw).
          \<not> (\<exists>ps ss. res_description (result ! i) = ps @ k @ ss)"
    from that have "filter
            (\<lambda>i. \<forall>k \<in> set (split kw). str_contains (res_description (result ! i)) k)
            [0 ..< length result] = []"
      by (auto simp: filter_empty_conv str_contains_iff)
    then show "getrow result (Some kw) = Inr []" by (simp add: getrow_Some)
  qed
  have d: "split kw \<noteq> [] \<and> i < length result \<and> res_description (result ! i) = []
       \<longrightarrow> (\<exists>out. getrow result (Some kw) = Inr out \<and> int i \<notin> set out)"
  proof
    assume that: "split kw \<noteq> [] \<and> i < length result \<and> res_description (result ! i) = []"
    from that obtain k where k: "k \<in> set (split kw)" by (cases "split kw") auto
    then have "k \<noteq> []" using split_nonempty [of kw] by auto
    with that have "\<not> str_contains (res_description (result ! i)) k" by simp
    with k have "i \<notin> set (filter
            (\<lambda>i. \<forall>k \<in> set (split kw). str_contains (res_description (result ! i)) k)
            [0 ..< length result])"
      by auto
    then have "int i \<notin> set (map int (filter
            (\<lambda>i. \<forall>k \<in> set (split kw). str_contains (res_description (result ! i)) k)
            [0 ..< length result]))"
      by (simp add: image_iff)
    then show "\<exists>out. getrow result (Some kw) = Inr out \<and> int i \<notin> set out"
      by (simp add: getrow_Some)
  qed
  from a b c d show ?thesis by (intro conjI)
qed

theorem filterByKeywords_empty_results_witness:
  "split ''magnitude color'' \<noteq> []
   \<and> 1 < length eight_records
   \<and> res_description (eight_records ! 1) = []
   \<and> getrow eight_records (Some ''magnitude color'') = Inr []"
proof -
  have s: "split ''magnitude color'' \<noteq> []" by code_simp
  have l: "1 < length eight_records" by code_simp
  have e: "res_description (eight_records ! 1) = []" by code_simp
  have "\<exists>out. getrow eight_records (Some ''magnitude color'') = Inr out \<and> int 1 \<notin> set out"
    by (rule filterByKeywords_empty_results [of "''magnitude color''" eight_records 1,
          THEN conjunct2, THEN conjunct2, THEN conjunct2, THEN mp])
      (intro conjI s l e)
  then have "getrow eight_records (Some ''magnitude color'') = Inr []"
    by (simp add: eight_none)
  with s l e show ?thesis by (intro conjI)
qed

subsection \<open>Determinism\<close>




















end
